theory Spec2Isabelle
  imports Complex_Main "HOL-Library.Sublist" "HOL-Library.Char_ord" "HOL-Library.List_Lexorder"
    "HOL-Library.AList" "HOL-Library.Multiset"
begin

section \<open>Python strings and slices\<close>

text \<open>
  A Python \<open>str\<close> is modelled as the list of its characters, so \<open>len\<close> is \<open>length\<close>.
  An Isabelle \<open>char\<close> stands for a code point below 256; on such strings the functions
  below are \<open>str.isspace\<close>, \<open>str.strip\<close>, \<open>str.lower\<close>, \<open>in\<close>, \<open>str.endswith\<close>,
  \<open>str.split\<close>, \<open>str.rfind\<close> and the slices \<open>s[i:]\<close> and \<open>s[:k]\<close> (a negative bound
  counts from the end).
\<close>

definition isspace :: "char \<Rightarrow> bool" where
  "isspace c =
     (let n = (of_char c :: nat)
      in (9 \<le> n \<and> n \<le> 13) \<or> (28 \<le> n \<and> n \<le> 32) \<or> n = 133 \<or> n = 160)"

definition strip :: "string \<Rightarrow> string" where
  "strip s = rev (dropWhile isspace (rev (dropWhile isspace s)))"

definition lower_char :: "char \<Rightarrow> char" where
  "lower_char c =
     (let n = (of_char c :: nat)
      in if (65 \<le> n \<and> n \<le> 90) \<or> (192 \<le> n \<and> n \<le> 222 \<and> n \<noteq> 215)
         then char_of (n + 32) else c)"

definition lower :: "string \<Rightarrow> string" where
  "lower s = map lower_char s"

fun contains :: "'a list \<Rightarrow> 'a list \<Rightarrow> bool" where
  "contains w [] = (w = [])"
| "contains w (c # cs) = (prefix w (c # cs) \<or> contains w cs)"

definition endswith :: "string \<Rightarrow> string \<Rightarrow> bool" where
  "endswith s w = suffix w s"

fun split :: "'a list \<Rightarrow> 'a list \<Rightarrow> 'a list \<Rightarrow> 'a list list" where
  "split sep cur [] = [cur]"
| "split sep cur (c # cs) =
     (if sep \<noteq> [] \<and> prefix sep (c # cs)
      then cur # split sep [] (drop (length sep - 1) cs)
      else split sep (cur @ [c]) cs)"

definition rfind :: "'a list \<Rightarrow> 'a list \<Rightarrow> int" where
  "rfind s sub =
     (case filter (\<lambda>i. prefix sub (drop i s)) (rev [0..<Suc (length s)]) of
        [] \<Rightarrow> - 1
      | i # _ \<Rightarrow> int i)"

definition slice_from :: "'a list \<Rightarrow> int \<Rightarrow> 'a list" where
  "slice_from s i =
     (let n = int (length s); j = (if i < 0 then max (n + i) 0 else min i n)
      in drop (nat j) s)"

definition slice_to :: "'a list \<Rightarrow> int \<Rightarrow> 'a list" where
  "slice_to s k =
     (let n = int (length s); j = (if k < 0 then max (n + k) 0 else min k n)
      in take (nat j) s)"

section \<open>The chunker of pdf ingestor\<close>

text \<open>
  A chunk is the dict \<open>{'text', 'page', 'chunk_index'}\<close> (\<open>text\<close> is a keyword of the
  theory language, so the field is \<open>chunk_text\<close>). \<open>get_overlap_text\<close> and
  \<open>create_chunks\<close> read \<open>self.chunk_overlap\<close> and \<open>self.chunk_size\<close>; here they are
  the first arguments. The body of the \<open>for sentence in sentences\<close> loop is
  \<open>chunk_step\<close> on the triple of \<open>chunks\<close>, \<open>current_chunk\<close> and \<open>chunk_index\<close>.
\<close>

record chunk_data =
  chunk_text :: string
  page :: int
  chunk_index :: int

definition get_overlap_text :: "int \<Rightarrow> string \<Rightarrow> string" where
  "get_overlap_text chunk_overlap txt =
     (if int (length txt) \<le> chunk_overlap then txt
      else
        let overlap_text = slice_from txt (- chunk_overlap);
            last_period = rfind overlap_text ''. '';
            overlap_text' = (if last_period > 0
                             then slice_from overlap_text (last_period + 2)
                             else overlap_text)
        in strip overlap_text')"

definition chunk_step ::
  "int \<Rightarrow> int \<Rightarrow> int \<Rightarrow> chunk_data list \<times> string \<times> int \<Rightarrow> string
   \<Rightarrow> chunk_data list \<times> string \<times> int" where
  "chunk_step chunk_size chunk_overlap page_num st sentence0 =
     (case st of (chunks, current_chunk, chunk_idx) \<Rightarrow>
        let sentence = strip sentence0 in
        if sentence = [] then st
        else
          let potential_chunk = (if current_chunk \<noteq> [] then current_chunk @ ''. '' @ sentence
                                 else sentence)
          in if int (length potential_chunk) > chunk_size \<and> current_chunk \<noteq> []
             then
               let chunks' = chunks @ [\<lparr>chunk_text = strip current_chunk, page = page_num,
                                        chunk_index = chunk_idx\<rparr>];
                   overlap_text = get_overlap_text chunk_overlap current_chunk;
                   current_chunk' = (if overlap_text \<noteq> [] then overlap_text @ ''. '' @ sentence
                                     else sentence)
               in (chunks', current_chunk', chunk_idx + 1)
             else (chunks, potential_chunk, chunk_idx))"

definition create_chunks :: "int \<Rightarrow> int \<Rightarrow> string \<Rightarrow> int \<Rightarrow> chunk_data list" where
  "create_chunks chunk_size chunk_overlap text0 page_num =
     (let txt = strip text0 in
      if txt = [] then []
      else
        let sentences = split ''. '' [] txt
        in case foldl (chunk_step chunk_size chunk_overlap page_num) ([], [], 0) sentences of
             (chunks, current_chunk, chunk_idx) \<Rightarrow>
               if strip current_chunk \<noteq> []
               then chunks @ [\<lparr>chunk_text = strip current_chunk, page = page_num,
                               chunk_index = chunk_idx\<rparr>]
               else chunks)"

text \<open>
  The sentences the loop of \<open>create_chunks\<close> works on: the parts of the stripped text
  between the delimiters, each stripped, the empty ones skipped.
\<close>

definition sentences :: "string \<Rightarrow> string list" where
  "sentences text0 = filter (\<lambda>s. s \<noteq> []) (map strip (split ''. '' [] (strip text0)))"

text \<open>
  Two properties for the proofs about the chunker. \<open>chunk_shape\<close> says of the \<open>i\<close>-th
  of the chunk texts \<open>ts\<close> that it has at most \<open>S\<close> characters, or is one of the
  sentences, or is the overlap text of the chunk before it, the delimiter and one
  sentence. \<open>chunker_inv\<close> is the invariant of the loop: the buffer is stripped, every
  chunk emitted so far has that shape, and the buffer would have it if it were emitted now.
\<close>

definition chunk_shape :: "int \<Rightarrow> int \<Rightarrow> string list \<Rightarrow> string list \<Rightarrow> nat \<Rightarrow> bool" where
  "chunk_shape S ov sents ts i \<longleftrightarrow>
     int (length (ts ! i)) \<le> S \<or> ts ! i \<in> set sents
     \<or> (0 < i \<and> (\<exists>s \<in> set sents. ts ! i = get_overlap_text ov (ts ! (i - 1)) @ ''. '' @ s))"

definition chunker_inv ::
  "int \<Rightarrow> int \<Rightarrow> string list \<Rightarrow> chunk_data list \<times> string \<times> int \<Rightarrow> bool" where
  "chunker_inv S ov sents st \<longleftrightarrow>
     (case st of (chunks, current_chunk, chunk_idx) \<Rightarrow>
        strip current_chunk = current_chunk
        \<and> (\<forall>i < length chunks. chunk_shape S ov sents (map chunk_text chunks) i)
        \<and> (current_chunk = [] \<or> int (length current_chunk) \<le> S \<or> current_chunk \<in> set sents
           \<or> (chunks \<noteq> [] \<and> (\<exists>s \<in> set sents.
                 current_chunk = get_overlap_text ov (chunk_text (last chunks)) @ ''. '' @ s))))"

section \<open>Exceptions\<close>

text \<open>
  A raised exception is a value: its class and its message (\<open>str(e)\<close>). A function that
  can raise returns \<open>exn + 'a\<close>; one that can raise after it has changed the store
  returns the store with \<open>exn option\<close>. \<open>Exception\<close> stands for every class that no
  handler of the program tells from the others.
\<close>

datatype exn =
    Exception string
  | ValueError string
  | JSONDecodeError string
  | RecursionError string
  | HTTPException nat string

fun digit_char :: "nat \<Rightarrow> char" where
  "digit_char n = char_of (48 + n)"

function str_nat :: "nat \<Rightarrow> string" where
  "str_nat n = (if n < 10 then [digit_char n] else str_nat (n div 10) @ [digit_char (n mod 10)])"
  by pat_completeness auto
termination
  by (relation "measure (\<lambda>n. n)") auto

definition str_int :: "int \<Rightarrow> string" where
  "str_int i = (if i < 0 then CHR ''-'' # str_nat (nat (- i)) else str_nat (nat i))"

fun str_exn :: "exn \<Rightarrow> string" where
  "str_exn (Exception m) = m"
| "str_exn (ValueError m) = m"
| "str_exn (JSONDecodeError m) = m"
| "str_exn (RecursionError m) = m"
| "str_exn (HTTPException code detail) = str_nat code @ '': '' @ detail"

text \<open>
  The exceptions that \<open>except (json.JSONDecodeError, ValueError)\<close> catches:
  \<open>JSONDecodeError\<close> is a subclass of \<open>ValueError\<close>.
\<close>

fun is_value_error :: "exn \<Rightarrow> bool" where
  "is_value_error (ValueError m) = True"
| "is_value_error (JSONDecodeError m) = True"
| "is_value_error e = False"

section \<open>The similarity index of vector store\<close>

text \<open>
  A stored document is the dict \<open>doc_data\<close> that \<open>add_documents\<close> builds; the fields
  \<open>page\<close> and \<open>chunk_index\<close> are \<open>doc_page\<close> and \<open>doc_chunk_index\<close> here, since the
  chunker's record has those names. The store holds \<open>self.embeddings\<close> and
  \<open>self.documents\<close>, and the two pickle files as \<open>embeddings_file\<close> and
  \<open>documents_file\<close> (\<open>None\<close>: the file does not exist) with \<open>writes\<close>, the number of
  times \<open>_save_data\<close> has rewritten them.

  The embedding provider and scikit-learn are outside the repository and are parameters:
  \<open>get_embedding\<close> is \<open>_get_embedding\<close>, which returns a vector or raises, and
  \<open>cosine_similarity\<close> stands for \<open>cosine_similarity(query_vector, np.vstack(embeddings))[0]\<close>,
  one score for each stored vector, or an exception of NumPy or scikit-learn. The scores
  are of any linearly ordered type.
\<close>

record document =
  content :: string
  source :: string
  doc_page :: int
  chunk_id :: string
  doc_chunk_index :: int

record 'v vector_store =
  embeddings :: "'v list"
  documents :: "document list"
  embeddings_file :: "'v list option"
  documents_file :: "document list option"
  writes :: nat

record 's search_result =
  res_content :: string
  res_source :: string
  res_page :: int
  res_chunk_id :: string
  similarity :: 's
  distance :: 's

definition save_data :: "'v vector_store \<Rightarrow> 'v vector_store" where
  "save_data vs =
     vs\<lparr>embeddings_file := Some (embeddings vs), documents_file := Some (documents vs),
        writes := Suc (writes vs)\<rparr>"

fun add_each ::
  "(string \<Rightarrow> exn + 'v) \<Rightarrow> document list \<Rightarrow> 'v vector_store \<Rightarrow> 'v vector_store \<times> exn option" where
  "add_each get_embedding [] vs = (vs, None)"
| "add_each get_embedding (doc # docs) vs =
     (case get_embedding (content doc) of
        Inl e \<Rightarrow> (vs, Some e)
      | Inr embedding \<Rightarrow>
          let doc_data = \<lparr>content = content doc, source = source doc, doc_page = doc_page doc,
                          chunk_id = chunk_id doc, doc_chunk_index = doc_chunk_index doc\<rparr>
          in add_each get_embedding docs
               (vs\<lparr>embeddings := embeddings vs @ [embedding],
                   documents := documents vs @ [doc_data]\<rparr>))"

definition add_documents ::
  "(string \<Rightarrow> exn + 'v) \<Rightarrow> document list \<Rightarrow> 'v vector_store \<Rightarrow> 'v vector_store \<times> exn option" where
  "add_documents get_embedding docs vs =
     (if docs = [] then (vs, None)
      else case add_each get_embedding docs vs of
             (vs', Some e) \<Rightarrow> (vs', Some e)
           | (vs', None) \<Rightarrow> (save_data vs', None))"

text \<open>
  \<open>np.argsort\<close> is a parameter too. The code calls it with its default kind, which is
  not stable: NumPy promises the indices of the scores in an order that sorts the scores
  ascending, and no order among equal scores. \<open>argsort_ok\<close> is that promise for one
  array and one answer. \<open>[::-1]\<close> is \<open>rev\<close> and \<open>[:top_k]\<close> is \<open>slice_to\<close>.
\<close>

definition argsort_ok :: "'s::linorder list \<Rightarrow> nat list \<Rightarrow> bool" where
  "argsort_ok similarities indices \<longleftrightarrow>
     mset indices = mset [0..<length similarities]
     \<and> sorted (map (\<lambda>i. similarities ! i) indices)"

definition top_indices :: "('s list \<Rightarrow> nat list) \<Rightarrow> 's list \<Rightarrow> int \<Rightarrow> nat list" where
  "top_indices np_argsort similarities top_k = slice_to (rev (np_argsort similarities)) top_k"

definition format_result :: "document list \<Rightarrow> 's list \<Rightarrow> nat \<Rightarrow> ('s::{one,minus}) search_result" where
  "format_result docs similarities idx =
     (let doc = docs ! idx; sim = similarities ! idx
      in \<lparr>res_content = content doc, res_source = source doc, res_page = doc_page doc,
          res_chunk_id = chunk_id doc, similarity = sim, distance = 1 - sim\<rparr>)"

definition search ::
  "(string \<Rightarrow> exn + 'v) \<Rightarrow> ('v \<Rightarrow> 'v list \<Rightarrow> exn + 's list) \<Rightarrow> ('s list \<Rightarrow> nat list) \<Rightarrow> int
   \<Rightarrow> 'v vector_store \<Rightarrow> string \<Rightarrow> int option
   \<Rightarrow> exn + ('s::{linorder,one,minus}) search_result list" where
  "search get_embedding cosine_similarity np_argsort TOP_K_RESULTS vs query top_k0 =
     (if embeddings vs = [] then Inr []
      else
        let top_k = (case top_k0 of None \<Rightarrow> TOP_K_RESULTS | Some k \<Rightarrow> k)
        in case get_embedding query of
             Inl e \<Rightarrow> Inl e
           | Inr query_vector \<Rightarrow>
               (case cosine_similarity query_vector (embeddings vs) of
                  Inl e \<Rightarrow> Inl e
                | Inr similarities \<Rightarrow>
                    Inr (map (format_result (documents vs) similarities)
                          (filter (\<lambda>idx. idx < length (documents vs))
                             (top_indices np_argsort similarities top_k)))))"

definition is_document_processed :: "'v vector_store \<Rightarrow> string \<Rightarrow> bool" where
  "is_document_processed vs filename = (\<exists>doc \<in> set (documents vs). source doc = filename)"

definition unique_sources :: "'v vector_store \<Rightarrow> string set" where
  "unique_sources vs = fold (\<lambda>doc acc. insert (source doc) acc) (documents vs) {}"

definition get_stats :: "'v vector_store \<Rightarrow> nat \<times> nat" where
  "get_stats vs = (length (documents vs), card (unique_sources vs))"

definition list_documents :: "'v vector_store \<Rightarrow> string list" where
  "list_documents vs = sorted_list_of_set (unique_sources vs)"

section \<open>The ingestion pipeline of pdf ingestor\<close>

text \<open>
  \<open>os.listdir\<close> and the PDF library are parameters: \<open>listdir\<close> gives the names in a
  folder or raises, \<open>read_pages\<close> gives the text of each page of a file or raises
  (\<open>fitz.open\<close>, \<open>load_page\<close>, \<open>get_text\<close>). \<open>path_join\<close>, \<open>basename\<close> and
  \<open>splitext_root\<close> are \<open>os.path.join\<close>, \<open>os.path.basename\<close> and
  \<open>os.path.splitext(p)[0]\<close> on POSIX paths.
\<close>

definition path_join :: "string \<Rightarrow> string \<Rightarrow> string" where
  "path_join a b =
     (if prefix ''/'' b then b
      else if a = [] \<or> endswith a ''/'' then a @ b
      else a @ ''/'' @ b)"

definition basename :: "string \<Rightarrow> string" where
  "basename p = slice_from p (rfind p ''/'' + 1)"

definition splitext_root :: "string \<Rightarrow> string" where
  "splitext_root p =
     (let sepIndex = rfind p ''/''; dotIndex = rfind p ''.''
      in if dotIndex > sepIndex
            \<and> (\<exists>c \<in> set (take (nat (dotIndex - (sepIndex + 1))) (drop (nat (sepIndex + 1)) p)).
                  c \<noteq> CHR ''.'')
         then slice_to p dotIndex
         else p)"

definition generate_chunk_id :: "string \<Rightarrow> int \<Rightarrow> int \<Rightarrow> string" where
  "generate_chunk_id filename pg chunk_idx =
     splitext_root filename @ ''-p'' @ str_int pg @ ''-c'' @ str_int chunk_idx"

definition extract_text_from_pdf ::
  "int \<Rightarrow> int \<Rightarrow> (string \<Rightarrow> exn + string list) \<Rightarrow> string \<Rightarrow> exn + chunk_data list" where
  "extract_text_from_pdf chunk_size chunk_overlap read_pages pdf_path =
     (case read_pages pdf_path of
        Inl e \<Rightarrow> Inl e
      | Inr pages \<Rightarrow>
          Inr (concat (map (\<lambda>(page_num, txt).
                              if strip txt = [] then []
                              else create_chunks chunk_size chunk_overlap txt (int page_num + 1))
                           (enumerate 0 pages))))"

definition process_pdf ::
  "int \<Rightarrow> int \<Rightarrow> (string \<Rightarrow> exn + string list) \<Rightarrow> (string \<Rightarrow> exn + 'v) \<Rightarrow> string
   \<Rightarrow> 'v vector_store \<Rightarrow> 'v vector_store \<times> exn option" where
  "process_pdf chunk_size chunk_overlap read_pages get_embedding pdf_path vs =
     (case extract_text_from_pdf chunk_size chunk_overlap read_pages pdf_path of
        Inl e \<Rightarrow> (vs, Some e)
      | Inr text_chunks \<Rightarrow>
          if text_chunks = [] then (vs, None)
          else
            let filename = basename pdf_path;
                chunks_with_metadata =
                  map (\<lambda>chunk_data.
                         \<lparr>content = chunk_text chunk_data, source = filename,
                          doc_page = page chunk_data,
                          chunk_id = generate_chunk_id filename (page chunk_data)
                                       (chunk_index chunk_data),
                          doc_chunk_index = chunk_index chunk_data\<rparr>) text_chunks
            in add_documents get_embedding chunks_with_metadata vs)"

text \<open>
  The \<open>for pdf_file in pdf_files\<close> loop: a document that \<open>is_document_processed\<close> is
  skipped; an exception of \<open>process_pdf\<close> is caught and the loop goes on with the store
  as the failed call left it.
\<close>

fun process_files ::
  "int \<Rightarrow> int \<Rightarrow> (string \<Rightarrow> exn + string list) \<Rightarrow> (string \<Rightarrow> exn + 'v) \<Rightarrow> string
   \<Rightarrow> string list \<Rightarrow> 'v vector_store \<Rightarrow> 'v vector_store" where
  "process_files chunk_size chunk_overlap read_pages get_embedding pdfs_folder [] vs = vs"
| "process_files chunk_size chunk_overlap read_pages get_embedding pdfs_folder (pdf_file # rest) vs =
     (let pdf_path = path_join pdfs_folder pdf_file
      in if is_document_processed vs pdf_file
         then process_files chunk_size chunk_overlap read_pages get_embedding pdfs_folder rest vs
         else process_files chunk_size chunk_overlap read_pages get_embedding pdfs_folder rest
                (fst (process_pdf chunk_size chunk_overlap read_pages get_embedding pdf_path vs)))"

definition process_pdfs_folder ::
  "int \<Rightarrow> int \<Rightarrow> (string \<Rightarrow> exn + string list) \<Rightarrow> (string \<Rightarrow> exn + string list)
   \<Rightarrow> (string \<Rightarrow> exn + 'v) \<Rightarrow> string \<Rightarrow> 'v vector_store \<Rightarrow> 'v vector_store \<times> exn option" where
  "process_pdfs_folder chunk_size chunk_overlap listdir read_pages get_embedding pdfs_folder vs =
     (case listdir pdfs_folder of
        Inl e \<Rightarrow> (vs, Some e)
      | Inr names \<Rightarrow>
          let pdf_files = filter (\<lambda>f. endswith (lower f) ''.pdf'') names
          in if pdf_files = [] then (vs, None)
             else (process_files chunk_size chunk_overlap read_pages get_embedding pdfs_folder
                     pdf_files vs, None))"

section \<open>The query pipeline of query handler\<close>

text \<open>
  A value that \<open>json.loads\<close> returns is a \<open>json\<close>; a dict is the list of its items in
  insertion order, and \<open>d[k] = v\<close> on it is \<open>AList.update\<close>. \<open>json_loads\<close> is a
  parameter: it returns the value or raises, a \<open>JSONDecodeError\<close> for a text that is
  not JSON and for instance a \<open>RecursionError\<close> for one that is nested too deep. So is \<open>re_search_amount\<close>, the match of the
  amount pattern in a text. \<open>generate_content\<close> is the generation model: it is given the
  data the prompt is built from and returns \<open>response.text\<close> or raises.
\<close>

datatype json =
    JNull
  | JBool bool
  | JNumber string
  | JStr string
  | JArr "json list"
  | JObj "(string \<times> json) list"

datatype 's prompt =
    ParseQueryPrompt string
  | DecisionPrompt string json "'s search_result list"

definition fence :: string where
  "fence = [CHR 0x60, CHR 0x60, CHR 0x60]"

function sub_json_fence :: "string \<Rightarrow> string" where
  "sub_json_fence [] = []"
| "sub_json_fence (c # cs) =
     (if prefix (fence @ ''json'') (c # cs)
      then sub_json_fence (dropWhile isspace (drop 6 cs))
      else c # sub_json_fence cs)"
  by pat_completeness auto
termination
  by (relation "measure length") (auto intro: le_less_trans [OF length_dropWhile_le])

fun sub_trailing_fence :: "string \<Rightarrow> string" where
  "sub_trailing_fence [] = []"
| "sub_trailing_fence (c # cs) =
     (if prefix fence (c # cs) \<and> list_all isspace (drop 2 cs) then []
      else c # sub_trailing_fence cs)"

definition search_braces :: "string \<Rightarrow> string option" where
  "search_braces s =
     (let r = dropWhile (\<lambda>c. c \<noteq> CHR ''{'') s
      in if r \<noteq> [] \<and> CHR ''}'' \<in> set (tl r)
         then Some (rev (dropWhile (\<lambda>c. c \<noteq> CHR ''}'') (rev r)))
         else None)"

definition clean_response :: "string \<Rightarrow> string" where
  "clean_response response_text0 =
     (let response_text = sub_trailing_fence (sub_json_fence (strip response_text0))
      in case search_braces response_text of
           Some json_match \<Rightarrow> json_match
         | None \<Rightarrow> response_text)"


definition citation :: "string \<Rightarrow> string \<Rightarrow> string \<Rightarrow> json" where
  "citation clause txt src = JObj [(''clause'', JStr clause), (''text'', JStr txt), (''source'', JStr src)]"

definition best_citation :: "'s search_result \<Rightarrow> json" where
  "best_citation best_result =
     citation (''Page '' @ str_int (res_page best_result))
       (slice_to (res_content best_result) 200 @ ''...'') (res_source best_result)"

definition keyword_decision :: "string \<Rightarrow> string" where
  "keyword_decision content_lower =
     (if list_ex (\<lambda>word. contains word content_lower) [''covered'', ''approved'', ''eligible'']
      then (if list_ex (\<lambda>word. contains word content_lower) [''waiting'', ''period'', ''days'']
            then ''Uncertain'' else ''Approved'')
      else if list_ex (\<lambda>word. contains word content_lower)
                [''excluded'', ''not covered'', ''rejected'']
      then ''Rejected''
      else ''Uncertain'')"

text \<open>
  The two handlers of \<open>_make_decision\<close>: \<open>heuristic_decision\<close> is the body of
  \<open>except (json.JSONDecodeError, ValueError)\<close>, the decision by keywords from the top
  search result; \<open>processing_error\<close> is the body of the outer \<open>except Exception\<close>.
\<close>

definition heuristic_decision ::
  "(string \<Rightarrow> string option) \<Rightarrow> 's search_result list \<Rightarrow> (string \<times> json) list" where
  "heuristic_decision re_search_amount search_results =
     (case search_results of
        best_result # _ \<Rightarrow>
          let content_lower = lower (res_content best_result);
              decision = keyword_decision content_lower;
              amount = (case re_search_amount (res_content best_result) of
                          Some a \<Rightarrow> JStr a | None \<Rightarrow> JNull)
          in [(''decision'', JStr decision), (''amount'', amount),
              (''justification'', JArr [best_citation best_result]),
              (''alternatives'', JArr [])]
      | [] \<Rightarrow>
          [(''decision'', JStr ''Uncertain''), (''amount'', JNull),
           (''justification'',
              JArr [citation ''N/A'' ''Unable to process the policy documents properly.'' ''N/A'']),
           (''alternatives'', JArr [])])"

definition processing_error :: "exn \<Rightarrow> (string \<times> json) list" where
  "processing_error e =
     [(''decision'', JStr ''Uncertain''), (''amount'', JNull),
      (''justification'', JArr [citation ''N/A'' (''Processing error: '' @ str_exn e) ''N/A'']),
      (''alternatives'', JArr [])]"

definition make_decision ::
  "('s prompt \<Rightarrow> exn + string) \<Rightarrow> (string \<Rightarrow> exn + json) \<Rightarrow> (string \<Rightarrow> string option)
   \<Rightarrow> string \<Rightarrow> json \<Rightarrow> 's search_result list \<Rightarrow> (string \<times> json) list" where
  "make_decision generate_content json_loads re_search_amount original_query structured_info
     search_results =
     (case generate_content (DecisionPrompt original_query structured_info search_results) of
        Inl e \<Rightarrow> processing_error e
      | Inr response_text \<Rightarrow>
          (case json_loads (clean_response response_text) of
             Inl e \<Rightarrow>
               if is_value_error e then heuristic_decision re_search_amount search_results
               else processing_error e
           | Inr (JObj decision_result) \<Rightarrow>
               let d1 = (if ''decision'' \<notin> fst ` set decision_result
                         then AList.update ''decision'' (JStr ''Uncertain'') decision_result
                         else decision_result);
                   d2 = (if ''justification'' \<notin> fst ` set d1
                            \<or> \<not> (case map_of d1 ''justification'' of Some (JArr _) \<Rightarrow> True | _ \<Rightarrow> False)
                         then (case search_results of
                                 best_result # _ \<Rightarrow>
                                   AList.update ''justification'' (JArr [best_citation best_result]) d1
                               | [] \<Rightarrow>
                                   AList.update ''justification''
                                     (JArr [citation ''N/A'' ''No relevant information found'' ''N/A'']) d1)
                         else d1);
                   d3 = (if ''alternatives'' \<notin> fst ` set d2
                         then AList.update ''alternatives'' (JArr []) d2
                         else d2)
               in d3
           | Inr _ \<Rightarrow> heuristic_decision re_search_amount search_results))"


section \<open>The query endpoint of main\<close>

text \<open>
  The global \<open>query_handler\<close> is \<open>None\<close> until start-up has succeeded; afterwards it is
  the handler, here the function \<open>QueryHandler.process_query\<close> of the query. The pydantic
  constructor \<open>QueryResponse(**result)\<close> is a parameter: it gives the response model or
  raises a validation error. \<open>HTTPException\<close> is an \<open>Exception\<close>, so the handler of
  \<open>except Exception\<close> receives the ones raised inside the \<open>try\<close> block too.
\<close>

definition main_process_query ::
  "((string \<times> json) list \<Rightarrow> exn + 'r) \<Rightarrow> (string \<Rightarrow> (string \<times> json) list) option \<Rightarrow> string
   \<Rightarrow> exn + 'r" where
  "main_process_query QueryResponse query_handler query =
     (let attempt =
            (case query_handler of
               None \<Rightarrow> Inl (HTTPException 503 ''Query handler not initialized'')
             | Some handler \<Rightarrow>
                 if strip query = [] then Inl (HTTPException 400 ''Query cannot be empty'')
                 else QueryResponse (handler query))
      in case attempt of
           Inl e \<Rightarrow> Inl (HTTPException 500 (''Failed to process query: '' @ str_exn e))
         | Inr response \<Rightarrow> Inr response)"

fun status_code :: "exn + 'r \<Rightarrow> nat" where
  "status_code (Inr response) = 200"
| "status_code (Inl (HTTPException code detail)) = code"
| "status_code (Inl e) = 500"

section \<open>Example data\<close>

text \<open>
  Concrete stores and collaborators, for the instances and counterexamples below: three
  stored chunks, a store built from given lists, an embedding provider that always answers
  with the same unit vector and one that always fails, the cosine similarity of unit
  vectors (their dot product), two answers that \<open>np.argsort\<close> may give (the indices
  sorted by score with equal scores in index order, and with equal scores in reverse index
  order), a generation model that answers a fixed text, and \<open>json.loads\<close> restricted to
  the texts used here, among them an object nested a thousand lists deep.
\<close>

definition doc_a :: document where
  "doc_a = \<lparr>content = ''Knee surgery is covered.'', source = ''a.pdf'', doc_page = 1,
            chunk_id = ''a-p1-c0'', doc_chunk_index = 0\<rparr>"

definition doc_b :: document where
  "doc_b = \<lparr>content = ''Cosmetic surgery is excluded.'', source = ''b.pdf'', doc_page = 1,
            chunk_id = ''b-p1-c0'', doc_chunk_index = 0\<rparr>"

definition doc_c :: document where
  "doc_c = \<lparr>content = ''Knee surgery is covered; cosmetic surgery is excluded.'',
            source = ''c.pdf'', doc_page = 2, chunk_id = ''c-p2-c0'', doc_chunk_index = 0\<rparr>"

definition store_of :: "'v list \<Rightarrow> document list \<Rightarrow> 'v vector_store" where
  "store_of es ds = \<lparr>embeddings = es, documents = ds, embeddings_file = Some es,
                     documents_file = Some ds, writes = 1\<rparr>"

definition embed_unit :: "string \<Rightarrow> exn + real list" where
  "embed_unit t = Inr [1, 0]"

definition embed_fail :: "string \<Rightarrow> exn + real list" where
  "embed_fail t = Inl (Exception ''quota exceeded'')"

definition unit_cosine :: "real list \<Rightarrow> real list list \<Rightarrow> exn + real list" where
  "unit_cosine q es = Inr (map (\<lambda>e. sum_list (map2 (*) q e)) es)"

definition top_result :: "document \<Rightarrow> real search_result" where
  "top_result d = format_result [d] [1] 0"

definition gen_text :: "string \<Rightarrow> real prompt \<Rightarrow> exn + string" where
  "gen_text t p = Inr t"

definition no_amount :: "string \<Rightarrow> string option" where
  "no_amount s = None"

definition dq :: string where
  "dq = [CHR 0x22]"

definition empty_justification_text :: string where
  "empty_justification_text =
     ''{'' @ dq @ ''decision'' @ dq @ '': '' @ dq @ ''Approved'' @ dq @ '', ''
       @ dq @ ''justification'' @ dq @ '': []}''"

definition nested_text :: string where
  "nested_text = ''{'' @ dq @ ''a'' @ dq @ '':'' @ replicate 1000 (CHR ''['') @ ''}''"

definition loads_example :: "string \<Rightarrow> exn + json" where
  "loads_example s =
     (if s = ''{}'' then Inr (JObj [])
      else if s = empty_justification_text
      then Inr (JObj [(''decision'', JStr ''Approved''), (''justification'', JArr [])])
      else if s = nested_text
      then Inl (RecursionError ''maximum recursion depth exceeded while decoding a JSON array'')
      else Inl (JSONDecodeError ''Expecting value''))"

definition argsort_index_order :: "real list \<Rightarrow> nat list" where
  "argsort_index_order xs = sort_key (\<lambda>i. xs ! i) [0..<length xs]"

definition argsort_reverse_order :: "real list \<Rightarrow> nat list" where
  "argsort_reverse_order xs = sort_key (\<lambda>i. xs ! i) (rev [0..<length xs])"

definition listdir_example :: "string \<Rightarrow> exn + string list" where
  "listdir_example folder = Inr [''a.pdf'', ''notes.txt'', ''B.PDF'']"

definition read_fail :: "string \<Rightarrow> exn + string list" where
  "read_fail path = Inl (Exception ''cannot open file'')"

section \<open>The query endpoint: status codes\<close>

lemma main_process_query_status:
  "status_code (main_process_query QueryResponse query_handler query) \<in> {200, 500}"
  by (simp add: main_process_query_def Let_def split: option.splits sum.splits)

text \<open>
  C1 (the code departs from the claim). The claim: an empty or whitespace-only query gets a
  client error (4xx). The endpoint raises \<open>HTTPException(400)\<close> for it inside the
  \<open>try\<close> block whose \<open>except Exception\<close> handler raises \<open>HTTPException(500)\<close> for
  whatever was raised, so with an initialised handler the query of three spaces gets
  status 500, whatever the handler and the response model are.
\<close>

theorem main_process_query_blank_query_500:
  "status_code (main_process_query QueryResponse (Some handler) ''   '') = 500"
  by (simp add: main_process_query_def strip_def isspace_def)

section \<open>The similarity index: add, list, search\<close>

text \<open>
  C10. \<open>add_documents\<close> with an empty sequence returns with the store as it was: the
  embeddings, the documents, both files and the count of writes are unchanged, and no
  exception is raised.
\<close>

theorem add_documents_empty_noop:
  "add_documents get_embedding [] vs = (vs, None)"
  by (simp add: add_documents_def)

lemma fold_insert_source:
  "fold (\<lambda>doc acc. insert (f doc) acc) docs A = f ` set docs \<union> A"
  by (induction docs arbitrary: A) auto

lemma unique_sources_eq: "unique_sources vs = source ` set (documents vs)"
  by (simp add: unique_sources_def fold_insert_source)

text \<open>
  C9. \<open>list_documents\<close> is sorted in the lexicographic order of strings, has no
  duplicates, and its elements are exactly the sources of the stored chunks; a store that
  holds the same chunks in another order gives the same list.
\<close>

theorem list_documents_sorted_distinct:
  assumes "mset (documents vs') = mset (documents vs)"
  shows "sorted (list_documents vs) \<and> distinct (list_documents vs)
       \<and> set (list_documents vs) = source ` set (documents vs)
       \<and> list_documents vs' = list_documents vs"
proof -
  have "set (documents vs') = set (documents vs)"
    using assms by (rule mset_eq_setD)
  then show ?thesis
    by (simp add: list_documents_def unique_sources_eq)
qed

theorem list_documents_sorted_distinct_witness:
  "mset (documents (store_of [[0, 1], [1, 0 :: real]] [doc_a, doc_b]))
     = mset (documents (store_of [[1, 0], [0, 1 :: real]] [doc_b, doc_a]))
   \<and> list_documents (store_of [[1, 0], [0, 1 :: real]] [doc_b, doc_a]) = [''a.pdf'', ''b.pdf'']
   \<and> list_documents (store_of [[0, 1], [1, 0 :: real]] [doc_a, doc_b]) = [''a.pdf'', ''b.pdf'']"
proof -
  have h: "mset (documents (store_of [[0, 1], [1, 0 :: real]] [doc_a, doc_b]))
             = mset (documents (store_of [[1, 0], [0, 1 :: real]] [doc_b, doc_a]))"
    by (simp add: store_of_def add.commute)
  have v: "list_documents (store_of [[1, 0], [0, 1 :: real]] [doc_b, doc_a]) = [''a.pdf'', ''b.pdf'']"
    by code_simp
  show ?thesis
    using h v list_documents_sorted_distinct [OF h] by simp
qed

lemma argsort_ok_length: "argsort_ok sims is \<Longrightarrow> length is = length sims"
  unfolding argsort_ok_def using mset_eq_length by fastforce

lemma argsort_ok_set: "argsort_ok sims is \<Longrightarrow> set is = {0..<length sims}"
  unfolding argsort_ok_def using mset_eq_setD by fastforce

lemma argsort_ok_distinct: "argsort_ok sims is \<Longrightarrow> distinct is"
  unfolding argsort_ok_def using mset_eq_imp_distinct_iff [of "is" "[0..<length sims]"] by simp

lemma argsort_ok_sorted_rev:
  "argsort_ok sims is \<Longrightarrow> sorted_wrt (\<lambda>a b. sims ! a \<ge> sims ! b) (rev is)"
proof -
  assume "argsort_ok sims is"
  then have "sorted (map (\<lambda>i. sims ! i) is)" by (simp add: argsort_ok_def)
  then have "sorted_wrt (\<lambda>a b. sims ! a \<le> sims ! b) is" by (simp add: sorted_map)
  then show ?thesis by (simp add: sorted_wrt_rev)
qed

lemma slice_to_take: "\<exists>m. slice_to xs k = take m xs"
  by (auto simp: slice_to_def Let_def)

lemma slice_to_nonneg: "0 \<le> k \<Longrightarrow> slice_to xs k = take (nat k) xs"
  by (auto simp: slice_to_def Let_def min_def)

lemma top_indices_take:
  "\<exists>m. top_indices np_argsort sims k = take m (rev (np_argsort sims))"
  unfolding top_indices_def by (rule slice_to_take)

lemma top_indices_bound:
  assumes "argsort_ok sims (np_argsort sims)" "i \<in> set (top_indices np_argsort sims k)"
  shows "i < length sims"
proof -
  obtain m where "top_indices np_argsort sims k = take m (rev (np_argsort sims))"
    using top_indices_take by blast
  with assms(2) have "i \<in> set (rev (np_argsort sims))"
    by (metis in_set_takeD)
  then show ?thesis using argsort_ok_set [OF assms(1)] by simp
qed

lemma length_top_indices:
  "argsort_ok sims (np_argsort sims) \<Longrightarrow> 0 \<le> k \<Longrightarrow>
   length (top_indices np_argsort sims k) = min (nat k) (length sims)"
  by (simp add: top_indices_def slice_to_nonneg argsort_ok_length)

lemma distinct_top_indices:
  assumes "argsort_ok sims (np_argsort sims)"
  shows "distinct (top_indices np_argsort sims k)"
proof -
  obtain m where m: "top_indices np_argsort sims k = take m (rev (np_argsort sims))"
    using top_indices_take by blast
  show ?thesis
    using argsort_ok_distinct [OF assms] by (simp add: m)
qed

lemma sorted_top_indices:
  assumes "argsort_ok sims (np_argsort sims)"
  shows "sorted_wrt (\<lambda>x y. x \<ge> y) (map (\<lambda>i. sims ! i) (top_indices np_argsort sims k))"
proof -
  obtain m where m: "top_indices np_argsort sims k = take m (rev (np_argsort sims))"
    using top_indices_take by blast
  have "sorted_wrt (\<lambda>a b. sims ! a \<ge> sims ! b) (take m (rev (np_argsort sims)))"
    using argsort_ok_sorted_rev [OF assms] by (rule sorted_wrt_take)
  then show ?thesis by (simp add: m sorted_wrt_map)
qed

lemma top_indices_best:
  assumes ok: "argsort_ok sims (np_argsort sims)"
    and j: "j < length sims" "j \<notin> set (top_indices np_argsort sims k)"
    and i: "i \<in> set (top_indices np_argsort sims k)"
  shows "sims ! j \<le> sims ! i"
proof -
  let ?r = "rev (np_argsort sims)"
  obtain m where m: "top_indices np_argsort sims k = take m ?r"
    using top_indices_take by blast
  have "j \<in> set ?r" using j(1) argsort_ok_set [OF ok] by simp
  then have "j \<in> set (take m ?r) \<union> set (drop m ?r)"
    by (metis append_take_drop_id set_append)
  with j(2) m have jd: "j \<in> set (drop m ?r)" by simp
  have "sorted_wrt (\<lambda>a b. sims ! a \<ge> sims ! b) (take m ?r @ drop m ?r)"
    using argsort_ok_sorted_rev [OF ok] by simp
  then have "\<forall>a \<in> set (take m ?r). \<forall>b \<in> set (drop m ?r). sims ! a \<ge> sims ! b"
    unfolding sorted_wrt_append by blast
  then show ?thesis using i jd m by simp
qed

lemma top_indices_reverse:
  assumes "p < q" "q < length (top_indices np_argsort sims k)"
  shows "\<exists>a b. b < a \<and> a < length (np_argsort sims)
           \<and> np_argsort sims ! a = top_indices np_argsort sims k ! p
           \<and> np_argsort sims ! b = top_indices np_argsort sims k ! q"
proof -
  let ?as = "np_argsort sims"
  let ?n = "length ?as"
  obtain m where m: "top_indices np_argsort sims k = take m (rev ?as)"
    using top_indices_take by blast
  from assms(2) m have q: "q < m" "q < ?n" by simp_all
  with assms(1) have p: "p < m" "p < ?n" by simp_all
  have tp: "top_indices np_argsort sims k ! p = ?as ! (?n - Suc p)"
    using p by (simp add: m rev_nth)
  have tq: "top_indices np_argsort sims k ! q = ?as ! (?n - Suc q)"
    using q by (simp add: m rev_nth)
  have "?n - Suc q < ?n - Suc p" "?n - Suc p < ?n"
    using assms(1) p q by simp_all
  then show ?thesis using tp tq by metis
qed

lemma search_results_eq:
  assumes "embeddings vs \<noteq> []" "get_embedding query = Inr qv"
    and "cosine_similarity qv (embeddings vs) = Inr sims"
    and "length sims = length (embeddings vs)" "length (documents vs) = length (embeddings vs)"
    and "argsort_ok sims (np_argsort sims)"
  shows "search get_embedding cosine_similarity np_argsort K vs query (Some k)
         = Inr (map (format_result (documents vs) sims) (top_indices np_argsort sims k))"
proof -
  have "filter (\<lambda>idx. idx < length (documents vs)) (top_indices np_argsort sims k)
        = top_indices np_argsort sims k"
    using assms(4,5,6) top_indices_bound [of sims np_argsort _ k] by (auto simp: filter_id_conv)
  then show ?thesis using assms(1-3) by (simp add: search_def)
qed

lemma similarity_format_result: "similarity (format_result docs sims i) = sims ! i"
  by (simp add: format_result_def Let_def)

text \<open>
  C3. In an index state with \<open>n\<close> stored entries (\<open>n\<close> embeddings and \<open>n\<close> documents),
  for a result count \<open>k \<ge> 0\<close>, \<open>search\<close> returns exactly \<open>min k n\<close> results, provided
  that, when the index is not empty, the embedding call and the similarity computation
  succeed with one score per stored vector and \<open>np.argsort\<close> keeps its promise on these
  scores. The results are stored entries, each once, each with its own cosine score to the
  query; they come in order of non-increasing score, and no entry left out has a higher
  score than one returned. On the empty index \<open>search\<close> returns the empty list for every
  query and every \<open>top_k\<close>, also the default one, without calling the embedding provider
  and without an exception.
\<close>

theorem search_count_and_order:
  assumes "length (embeddings vs) = n" "length (documents vs) = n" "0 \<le> k"
    and "n \<noteq> 0 \<longrightarrow> get_embedding query = Inr qv \<and> cosine_similarity qv (embeddings vs) = Inr sims
           \<and> length sims = n \<and> argsort_ok sims (np_argsort sims)"
  shows "\<exists>idxs rs. search get_embedding cosine_similarity np_argsort K vs query (Some k) = Inr rs
            \<and> rs = map (format_result (documents vs) sims) idxs
            \<and> length rs = min (nat k) n
            \<and> distinct idxs \<and> (\<forall>i \<in> set idxs. i < n)
            \<and> map similarity rs = map (\<lambda>i. sims ! i) idxs
            \<and> sorted_wrt (\<lambda>x y. x \<ge> y) (map similarity rs)
            \<and> (\<forall>j < n. j \<notin> set idxs \<longrightarrow> (\<forall>i \<in> set idxs. sims ! j \<le> sims ! i))
            \<and> (n = 0 \<longrightarrow>
                 search get_embedding cosine_similarity np_argsort K vs query top_k = Inr [])"
proof (cases "n = 0")
  case True
  with assms(1) have "embeddings vs = []" by simp
  then have "search get_embedding cosine_similarity np_argsort K vs query (Some k) = Inr []"
    and "search get_embedding cosine_similarity np_argsort K vs query top_k = Inr []"
    by (simp_all add: search_def)
  then show ?thesis using True
    by (intro exI [where x = "[]"]) simp
next
  case False
  with assms have ne: "embeddings vs \<noteq> []" and ok: "argsort_ok sims (np_argsort sims)"
    and ls: "length sims = n" by auto
  let ?idxs = "top_indices np_argsort sims k"
  let ?rs = "map (format_result (documents vs) sims) ?idxs"
  have eq: "search get_embedding cosine_similarity np_argsort K vs query (Some k) = Inr ?rs"
    using assms False ne by (intro search_results_eq [where qv = qv]) simp_all
  have sims_eq: "map similarity ?rs = map (\<lambda>i. sims ! i) ?idxs"
    by (simp add: similarity_format_result comp_def)
  have srt: "sorted_wrt (\<lambda>x y. x \<ge> y) (map similarity ?rs)"
    using ok by (subst sims_eq) (rule sorted_top_indices)
  have len: "length ?rs = min (nat k) n"
    using length_top_indices [of sims np_argsort k] ok assms(3) ls by simp
  have dst: "distinct ?idxs" using ok by (rule distinct_top_indices)
  have bnd: "\<forall>i \<in> set ?idxs. i < n"
    using top_indices_bound [of sims np_argsort _ k] ok ls by blast
  have best: "\<forall>j < n. j \<notin> set ?idxs \<longrightarrow> (\<forall>i \<in> set ?idxs. sims ! j \<le> sims ! i)"
    using top_indices_best [of sims np_argsort _ k] ok ls by blast
  show ?thesis
    using eq len dst bnd sims_eq srt best False by blast
qed

theorem search_count_and_order_witness:
  "\<exists>idxs rs. search embed_unit unit_cosine argsort_index_order 5
             (store_of [[1, 0], [0, 1], [1, 0]] [doc_a, doc_b, doc_c])
             ''Is surgery covered?'' (Some 2) = Inr rs
        \<and> rs = map (format_result [doc_a, doc_b, doc_c] [1, 0, 1]) idxs
        \<and> length rs = 2 \<and> distinct idxs \<and> (\<forall>i \<in> set idxs. i < 3)
        \<and> sorted_wrt (\<lambda>x y. x \<ge> y) (map similarity rs)
        \<and> (\<forall>j < 3. j \<notin> set idxs \<longrightarrow> (\<forall>i \<in> set idxs. [1, 0, 1 :: real] ! j \<le> [1, 0, 1] ! i))"
proof -
  let ?vs = "store_of [[1, 0], [0, 1], [1, 0 :: real]] [doc_a, doc_b, doc_c]"
  have h1: "length (embeddings ?vs) = 3" by (simp add: store_of_def)
  have h2: "length (documents ?vs) = 3" by (simp add: store_of_def)
  have h3: "(0::int) \<le> 2" by simp
  have ok: "argsort_ok [1, 0, 1 :: real] (argsort_index_order [1, 0, 1])" by code_simp
  have h4: "(3::nat) \<noteq> 0 \<longrightarrow> embed_unit ''Is surgery covered?'' = Inr [1, 0]
              \<and> unit_cosine [1, 0] (embeddings ?vs) = Inr [1, 0, 1] \<and> length [1, 0, 1 :: real] = 3
              \<and> argsort_ok [1, 0, 1 :: real] (argsort_index_order [1, 0, 1])"
    using ok by (simp add: embed_unit_def unit_cosine_def store_of_def)
  have d: "documents ?vs = [doc_a, doc_b, doc_c]" by (simp add: store_of_def)
  have "\<exists>idxs rs. search embed_unit unit_cosine argsort_index_order 5 ?vs
               ''Is surgery covered?'' (Some 2) = Inr rs
          \<and> rs = map (format_result (documents ?vs) [1, 0, 1]) idxs
          \<and> length rs = min (nat 2) 3
          \<and> distinct idxs \<and> (\<forall>i \<in> set idxs. i < 3)
          \<and> map similarity rs = map (\<lambda>i. [1, 0, 1] ! i) idxs
          \<and> sorted_wrt (\<lambda>x y. x \<ge> y) (map similarity rs)
          \<and> (\<forall>j < 3. j \<notin> set idxs \<longrightarrow> (\<forall>i \<in> set idxs. [1, 0, 1 :: real] ! j \<le> [1, 0, 1] ! i))
          \<and> ((3::nat) = 0 \<longrightarrow>
               search embed_unit unit_cosine argsort_index_order 5 ?vs
                 ''Is surgery covered?'' None = Inr [])"
    by (rule search_count_and_order [where vs = ?vs and n = 3 and k = 2
          and get_embedding = embed_unit and query = "''Is surgery covered?''" and qv = "[1, 0]"
          and cosine_similarity = unit_cosine and sims = "[1, 0, 1]"
          and np_argsort = argsort_index_order and K = 5 and top_k = None, OF h1 h2 h3 h4])
  then obtain idxs rs where
    "search embed_unit unit_cosine argsort_index_order 5 ?vs ''Is surgery covered?'' (Some 2) = Inr rs"
    "rs = map (format_result (documents ?vs) [1, 0, 1]) idxs"
    "length rs = min (nat 2) 3" "distinct idxs" "\<forall>i \<in> set idxs. i < 3"
    "sorted_wrt (\<lambda>x y. x \<ge> y) (map similarity rs)"
    "\<forall>j < 3. j \<notin> set idxs \<longrightarrow> (\<forall>i \<in> set idxs. [1, 0, 1 :: real] ! j \<le> [1, 0, 1] ! i)"
    by blast
  then show ?thesis
    unfolding d by (intro exI [where x = idxs] exI [where x = rs]) simp
qed

text \<open>
  C4 (amended). \<open>search\<close> returns the entries in order of non-increasing similarity and
  fixes no order among entries of equal similarity: it reverses the answer of
  \<open>np.argsort\<close> and keeps the first \<open>top_k\<close> indices, so every two returned entries come
  in the reverse of the order in which \<open>np.argsort\<close> lists them, and insertion order is
  not guaranteed for ties.
\<close>

theorem search_order_reverse_argsort:
  assumes "embeddings vs \<noteq> []" "get_embedding query = Inr qv"
    and "cosine_similarity qv (embeddings vs) = Inr sims"
    and "length sims = length (embeddings vs)" "length (documents vs) = length (embeddings vs)"
    and "argsort_ok sims (np_argsort sims)"
  shows "search get_embedding cosine_similarity np_argsort K vs query (Some k)
           = Inr (map (format_result (documents vs) sims) (top_indices np_argsort sims k))
       \<and> sorted_wrt (\<lambda>x y. x \<ge> y) (map (\<lambda>i. sims ! i) (top_indices np_argsort sims k))
       \<and> (\<forall>p q. p < q \<and> q < length (top_indices np_argsort sims k)
              \<longrightarrow> (\<exists>a b. b < a \<and> a < length (np_argsort sims)
                     \<and> np_argsort sims ! a = top_indices np_argsort sims k ! p
                     \<and> np_argsort sims ! b = top_indices np_argsort sims k ! q))"
proof (intro conjI)
  show "search get_embedding cosine_similarity np_argsort K vs query (Some k)
          = Inr (map (format_result (documents vs) sims) (top_indices np_argsort sims k))"
    using assms by (rule search_results_eq)
  show "sorted_wrt (\<lambda>x y. x \<ge> y) (map (\<lambda>i. sims ! i) (top_indices np_argsort sims k))"
    using assms(6) by (rule sorted_top_indices)
  show "\<forall>p q. p < q \<and> q < length (top_indices np_argsort sims k)
              \<longrightarrow> (\<exists>a b. b < a \<and> a < length (np_argsort sims)
                     \<and> np_argsort sims ! a = top_indices np_argsort sims k ! p
                     \<and> np_argsort sims ! b = top_indices np_argsort sims k ! q)"
    using top_indices_reverse [of _ _ np_argsort sims k] by blast
qed

theorem search_order_reverse_argsort_witness:
  "argsort_ok [1, 1 :: real] (argsort_reverse_order [1, 1])
   \<and> argsort_reverse_order [1, 1] = [1, 0]
   \<and> search embed_unit unit_cosine argsort_reverse_order 5
       (store_of [[1, 0], [1, 0]] [doc_a, doc_b]) ''Is surgery covered?'' (Some 5)
     = Inr (map (format_result [doc_a, doc_b] [1, 1]) [0, 1])"
proof -
  let ?vs = "store_of [[1, 0], [1, 0 :: real]] [doc_a, doc_b]"
  have h1: "embeddings ?vs \<noteq> []" by (simp add: store_of_def)
  have h2: "embed_unit ''Is surgery covered?'' = Inr [1, 0]" by (simp add: embed_unit_def)
  have h3: "unit_cosine [1, 0] (embeddings ?vs) = Inr [1, 1]"
    by (simp add: unit_cosine_def store_of_def)
  have h4: "length [1, 1 :: real] = length (embeddings ?vs)" by (simp add: store_of_def)
  have h5: "length (documents ?vs) = length (embeddings ?vs)" by (simp add: store_of_def)
  have h6: "argsort_ok [1, 1 :: real] (argsort_reverse_order [1, 1])" by code_simp
  have a: "argsort_reverse_order [1, 1] = [1, 0]" by code_simp
  have t: "top_indices argsort_reverse_order [1, 1 :: real] 5 = [0, 1]" by code_simp
  have d: "documents ?vs = [doc_a, doc_b]" by (simp add: store_of_def)
  have "search embed_unit unit_cosine argsort_reverse_order 5 ?vs ''Is surgery covered?'' (Some 5)
        = Inr (map (format_result (documents ?vs) [1, 1])
                 (top_indices argsort_reverse_order [1, 1] 5))"
    using h1 h2 h3 h4 h5 h6
      search_order_reverse_argsort [where vs = ?vs and get_embedding = embed_unit
        and query = "''Is surgery covered?''" and qv = "[1, 0]"
        and cosine_similarity = unit_cosine and sims = "[1, 1]"
        and np_argsort = argsort_reverse_order and K = 5 and k = 5]
    by blast
  then show ?thesis using h6 a by (simp only: t d)
qed

theorem search_ties_insertion_order_counterexample:
  "argsort_ok [1, 1 :: real] (argsort_index_order [1, 1])
   \<and> search embed_unit unit_cosine argsort_index_order 5
       (store_of [[1, 0], [1, 0]] [doc_a, doc_b]) ''Is surgery covered?'' (Some 5)
     = Inr [\<lparr>res_content = ''Cosmetic surgery is excluded.'', res_source = ''b.pdf'',
              res_page = 1, res_chunk_id = ''b-p1-c0'', similarity = 1, distance = 0\<rparr>,
            \<lparr>res_content = ''Knee surgery is covered.'', res_source = ''a.pdf'',
              res_page = 1, res_chunk_id = ''a-p1-c0'', similarity = 1, distance = 0\<rparr>]"
  by code_simp

section \<open>The ingestion pipeline: documents already in the index\<close>

lemma process_files_skip:
  "\<forall>f \<in> set files. is_document_processed vs f \<Longrightarrow>
   process_files cs co read_pages get_embedding folder files vs = vs"
  by (induction files) simp_all

text \<open>
  C8. When the folder can be listed and every PDF file in it (a name that ends in
  \<open>.pdf\<close>, in any case) is the source of a stored chunk, \<open>process_pdfs_folder\<close> leaves
  the store as it was: no chunk is added and nothing is written, whatever the PDF reader
  and the embedding provider would do, since neither is called.
\<close>

theorem process_pdfs_folder_all_processed:
  assumes "listdir pdfs_folder = Inr names"
    and "\<forall>f \<in> set names. endswith (lower f) ''.pdf'' \<longrightarrow> is_document_processed vs f"
  shows "process_pdfs_folder cs co listdir read_pages get_embedding pdfs_folder vs = (vs, None)"
  using assms by (simp add: process_pdfs_folder_def Let_def process_files_skip)

theorem process_pdfs_folder_all_processed_witness:
  "process_pdfs_folder 1000 200 listdir_example read_fail embed_fail ''pdfs''
     (store_of [[1, 0], [0, 1]] [doc_a, doc_b\<lparr>source := ''B.PDF''\<rparr>])
   = (store_of [[1, 0], [0, 1]] [doc_a, doc_b\<lparr>source := ''B.PDF''\<rparr>], None)"
proof -
  let ?vs = "store_of [[1, 0], [0, 1 :: real]] [doc_a, doc_b\<lparr>source := ''B.PDF''\<rparr>]"
  have h1: "listdir_example ''pdfs'' = Inr [''a.pdf'', ''notes.txt'', ''B.PDF'']"
    by (simp add: listdir_example_def)
  have h2: "\<forall>f \<in> set [''a.pdf'', ''notes.txt'', ''B.PDF''].
              endswith (lower f) ''.pdf'' \<longrightarrow> is_document_processed ?vs f"
    by (simp add: is_document_processed_def store_of_def doc_a_def doc_b_def endswith_def
          lower_def lower_char_def suffix_to_prefix)
  show ?thesis
    using h1 h2
      process_pdfs_folder_all_processed [where listdir = listdir_example
        and pdfs_folder = "''pdfs''" and names = "[''a.pdf'', ''notes.txt'', ''B.PDF'']"
        and vs = ?vs and cs = 1000 and co = 200 and read_pages = read_fail
        and get_embedding = embed_fail]
    by blast
qed

section \<open>The query pipeline: decision and justification\<close>


lemma contains_map: "contains w s \<Longrightarrow> contains (map f w) (map f s)"
  by (induction s) (auto dest: map_mono_prefix [where f = f])

lemma lower_excluded: "lower ''excluded'' = ''excluded''"
  by (simp add: lower_def lower_char_def)


lemma processing_error_fields:
  "map_of (processing_error e) ''decision'' = Some (JStr ''Uncertain'')"
  "map_of (processing_error e) ''justification''
     = Some (JArr [citation ''N/A'' (''Processing error: '' @ str_exn e) ''N/A''])"
  by (simp_all add: processing_error_def)

lemma heuristic_decision_fields:
  "map_of (heuristic_decision amt (best # rest)) ''decision''
     = Some (JStr (keyword_decision (lower (res_content best))))"
  "map_of (heuristic_decision amt (best # rest)) ''justification''
     = Some (JArr [best_citation best])"
  by (simp_all add: heuristic_decision_def Let_def)


lemma make_decision_other_error:
  "gen (DecisionPrompt q si rs) = Inr t \<Longrightarrow> jl (clean_response t) = Inl e \<Longrightarrow>
   \<not> is_value_error e \<Longrightarrow> make_decision gen jl amt q si rs = processing_error e"
  by (simp add: make_decision_def)

lemma make_decision_value_error:
  "gen (DecisionPrompt q si rs) = Inr t \<Longrightarrow> jl (clean_response t) = Inl e \<Longrightarrow>
   is_value_error e \<Longrightarrow> make_decision gen jl amt q si rs = heuristic_decision amt rs"
  by (simp add: make_decision_def)












lemma loads_example_nested:
  "loads_example (clean_response nested_text)
   = Inl (RecursionError ''maximum recursion depth exceeded while decoding a JSON array'')"
  by code_simp

text \<open>
  C7 (amended). When the generation call returns a text on which \<open>json.loads\<close> raises
  \<open>JSONDecodeError\<close> (or another \<open>ValueError\<close>), the search results are not empty, and
  the content of the top result contains \<open>excluded\<close> and, in lower case, none of
  \<open>covered\<close>, \<open>approved\<close>, \<open>eligible\<close>, the decision is \<open>Rejected\<close>. (The three words
  are tested first, and a content that has one of them is decided \<open>Approved\<close> or
  \<open>Uncertain\<close>.) When \<open>json.loads\<close> raises an exception of another class, as
  \<open>RecursionError\<close> on a text nested too deep, the outer handler answers \<open>Uncertain\<close>.
\<close>

theorem make_decision_excluded_rejected:
  assumes "gen (DecisionPrompt q si (best # rest)) = Inr t"
    and "jl (clean_response t) = Inl e"
    and "contains ''excluded'' (res_content best)"
    and "\<forall>w \<in> set [''covered'', ''approved'', ''eligible''].
           \<not> contains w (lower (res_content best))"
  shows "map_of (make_decision gen jl amt q si (best # rest)) ''decision''
         = Some (JStr (if is_value_error e then ''Rejected'' else ''Uncertain''))"
proof (cases "is_value_error e")
  case True
  have "contains ''excluded'' (lower (res_content best))"
    using contains_map [OF assms(3), of lower_char] lower_excluded by (simp add: lower_def)
  then have "keyword_decision (lower (res_content best)) = ''Rejected''"
    using assms(4) by (simp add: keyword_decision_def)
  moreover have "make_decision gen jl amt q si (best # rest) = heuristic_decision amt (best # rest)"
    using assms(1,2) True make_decision_value_error [of gen q si "best # rest" t jl e amt]
    by simp
  ultimately show ?thesis
    using True by (simp add: heuristic_decision_fields)
next
  case False
  have "make_decision gen jl amt q si (best # rest) = processing_error e"
    using assms(1,2) False make_decision_other_error [of gen q si "best # rest" t jl e amt]
    by simp
  then show ?thesis
    using False by (simp add: processing_error_fields)
qed

theorem make_decision_excluded_rejected_witness:
  "map_of (make_decision (gen_text ''I cannot answer that.'') loads_example no_amount
             ''Is cosmetic surgery covered?'' (JObj []) [top_result doc_b]) ''decision''
     = Some (JStr ''Rejected'')
   \<and> map_of (make_decision (gen_text nested_text) loads_example no_amount
               ''Is cosmetic surgery covered?'' (JObj []) [top_result doc_b]) ''decision''
     = Some (JStr ''Uncertain'')"
proof -
  let ?q = "''Is cosmetic surgery covered?''"
  have h1: "gen_text ''I cannot answer that.'' (DecisionPrompt ?q (JObj []) (top_result doc_b # []))
            = Inr ''I cannot answer that.''"
    by (simp add: gen_text_def)
  have h2: "loads_example (clean_response ''I cannot answer that.'')
            = Inl (JSONDecodeError ''Expecting value'')"
    by code_simp
  have g1: "gen_text nested_text (DecisionPrompt ?q (JObj []) (top_result doc_b # []))
            = Inr nested_text"
    by (simp add: gen_text_def)
  have h3: "contains ''excluded'' (res_content (top_result doc_b))"
    by code_simp
  have h4: "\<forall>w \<in> set [''covered'', ''approved'', ''eligible''].
              \<not> contains w (lower (res_content (top_result doc_b)))"
    by code_simp
  have "map_of (make_decision (gen_text ''I cannot answer that.'') loads_example no_amount
                  ?q (JObj []) (top_result doc_b # [])) ''decision''
        = Some (JStr (if is_value_error (JSONDecodeError ''Expecting value'')
                      then ''Rejected'' else ''Uncertain''))"
    by (rule make_decision_excluded_rejected [where gen = "gen_text ''I cannot answer that.''"
          and q = ?q and si = "JObj []" and best = "top_result doc_b" and rest = "[]"
          and t = "''I cannot answer that.''" and jl = loads_example and amt = no_amount
          and e = "JSONDecodeError ''Expecting value''", OF h1 h2 h3 h4])
  moreover have "map_of (make_decision (gen_text nested_text) loads_example no_amount
                  ?q (JObj []) (top_result doc_b # [])) ''decision''
        = Some (JStr (if is_value_error
                           (RecursionError
                              ''maximum recursion depth exceeded while decoding a JSON array'')
                      then ''Rejected'' else ''Uncertain''))"
    by (rule make_decision_excluded_rejected [where gen = "gen_text nested_text"
          and q = ?q and si = "JObj []" and best = "top_result doc_b" and rest = "[]"
          and t = nested_text and jl = loads_example and amt = no_amount
          and e = "RecursionError ''maximum recursion depth exceeded while decoding a JSON array''",
          OF g1 loads_example_nested h3 h4])
  ultimately show ?thesis by simp
qed

theorem make_decision_excluded_counterexample:
  "loads_example (clean_response ''I cannot answer that.'')
     = Inl (JSONDecodeError ''Expecting value'')
   \<and> contains ''excluded'' (res_content (top_result doc_c))
   \<and> map_of (make_decision (gen_text ''I cannot answer that.'') loads_example no_amount
               ''Is cosmetic surgery covered?'' (JObj []) [top_result doc_c]) ''decision''
     = Some (JStr ''Approved'')"
  by code_simp

section \<open>The chunker: size of the chunks\<close>

lemma strip_prefix_dropWhile: "\<exists>r. dropWhile isspace s = strip s @ r"
proof -
  let ?d = "dropWhile isspace s"
  have "rev ?d = takeWhile isspace (rev ?d) @ dropWhile isspace (rev ?d)" by simp
  then have "?d = rev (dropWhile isspace (rev ?d)) @ rev (takeWhile isspace (rev ?d))"
    by (metis rev_append rev_rev_ident)
  then show ?thesis unfolding strip_def by blast
qed

lemma strip_hd: "strip s \<noteq> [] \<Longrightarrow> \<not> isspace (hd (strip s))"
proof -
  assume ne: "strip s \<noteq> []"
  obtain r where r: "dropWhile isspace s = strip s @ r" using strip_prefix_dropWhile by blast
  with ne have "hd (dropWhile isspace s) = hd (strip s)" by simp
  moreover have "dropWhile isspace s \<noteq> []" using r ne by simp
  ultimately show ?thesis using hd_dropWhile [of isspace s] by simp
qed

lemma strip_last: "strip s \<noteq> [] \<Longrightarrow> \<not> isspace (last (strip s))"
proof -
  assume ne: "strip s \<noteq> []"
  let ?e = "dropWhile isspace (rev (dropWhile isspace s))"
  have e: "?e \<noteq> []" using ne by (simp add: strip_def)
  then have "\<not> isspace (hd ?e)" by (rule hd_dropWhile)
  moreover have "last (strip s) = hd ?e" using e by (simp add: strip_def last_rev)
  ultimately show ?thesis by simp
qed

lemma strip_id: "s = [] \<or> (\<not> isspace (hd s) \<and> \<not> isspace (last s)) \<Longrightarrow> strip s = s"
proof (cases s)
  case Nil
  then show ?thesis by (simp add: strip_def)
next
  case (Cons c cs)
  assume "s = [] \<or> (\<not> isspace (hd s) \<and> \<not> isspace (last s))"
  with Cons have h: "\<not> isspace c" and l: "\<not> isspace (last s)" by auto
  have d: "dropWhile isspace s = s" using Cons h by simp
  have "hd (rev s) = last s" by (simp add: hd_rev)
  with l have "dropWhile isspace (rev s) = rev s"
    by (simp only: dropWhile_eq_self_iff) simp
  then show ?thesis by (simp add: strip_def d)
qed

lemma strip_eq_iff: "strip s = s \<longleftrightarrow> s = [] \<or> (\<not> isspace (hd s) \<and> \<not> isspace (last s))"
  using strip_id [of s] strip_hd [of s] strip_last [of s] by auto

lemma strip_strip: "strip (strip s) = strip s"
  using strip_hd [of s] strip_last [of s] by (intro strip_id) auto

lemma strip_join:
  "strip a = a \<Longrightarrow> a \<noteq> [] \<Longrightarrow> strip b = b \<Longrightarrow> b \<noteq> [] \<Longrightarrow> strip (a @ m @ b) = a @ m @ b"
  by (intro strip_id) (auto simp: strip_eq_iff)

lemma length_strip: "length (strip s) \<le> length s"
proof -
  have "length (strip s) \<le> length (dropWhile isspace s)"
    unfolding strip_def using length_dropWhile_le [of isspace "rev (dropWhile isspace s)"] by simp
  also have "\<dots> \<le> length s" by (rule length_dropWhile_le)
  finally show ?thesis .
qed

lemma length_slice_from: "length (slice_from s j) \<le> length s"
  by (simp add: slice_from_def Let_def)

lemma strip_get_overlap_text:
  "strip t = t \<Longrightarrow> strip (get_overlap_text ov t) = get_overlap_text ov t"
  by (simp add: get_overlap_text_def Let_def strip_strip)

lemma length_get_overlap_text:
  assumes "0 < ov"
  shows "int (length (get_overlap_text ov t)) \<le> ov"
proof (cases "int (length t) \<le> ov")
  case True
  then show ?thesis by (simp add: get_overlap_text_def)
next
  case False
  let ?o = "slice_from t (- ov)"
  have lo: "int (length ?o) \<le> ov"
    using assms False by (simp add: slice_from_def Let_def)
  have "\<And>j. int (length (strip (slice_from ?o j))) \<le> ov"
  proof -
    fix j
    have "length (strip (slice_from ?o j)) \<le> length (slice_from ?o j)" by (rule length_strip)
    also have "\<dots> \<le> length ?o" by (rule length_slice_from)
    finally show "int (length (strip (slice_from ?o j))) \<le> ov" using lo by linarith
  qed
  moreover have "int (length (strip ?o)) \<le> ov"
    using lo length_strip [of ?o] by linarith
  ultimately show ?thesis
    using False by (simp add: get_overlap_text_def Let_def)
qed


lemma chunk_shape_append_old:
  "i < length ts \<Longrightarrow> chunk_shape S ov sents (ts @ [t]) i = chunk_shape S ov sents ts i"
  by (cases i) (simp_all add: chunk_shape_def nth_append)

lemma chunk_shape_append_new:
  assumes "int (length t) \<le> S \<or> t \<in> set sents
           \<or> (ts \<noteq> [] \<and> (\<exists>s \<in> set sents. t = get_overlap_text ov (last ts) @ ''. '' @ s))"
  shows "chunk_shape S ov sents (ts @ [t]) (length ts)"
proof -
  have "ts \<noteq> [] \<Longrightarrow> (ts @ [t]) ! (length ts - 1) = last ts"
    by (simp add: nth_append last_conv_nth)
  then show ?thesis
    using assms unfolding chunk_shape_def by auto
qed

lemma chunk_shape_snoc:
  assumes "\<forall>i < length ts. chunk_shape S ov sents ts i"
    and "int (length t) \<le> S \<or> t \<in> set sents
         \<or> (ts \<noteq> [] \<and> (\<exists>s \<in> set sents. t = get_overlap_text ov (last ts) @ ''. '' @ s))"
  shows "\<forall>i < length (ts @ [t]). chunk_shape S ov sents (ts @ [t]) i"
proof (intro allI impI)
  fix i assume "i < length (ts @ [t])"
  then consider "i < length ts" | "i = length ts" by fastforce
  then show "chunk_shape S ov sents (ts @ [t]) i"
  proof cases
    case 1
    then show ?thesis using assms(1) by (simp add: chunk_shape_append_old)
  next
    case 2
    then show ?thesis using chunk_shape_append_new [OF assms(2)] by simp
  qed
qed

lemma chunker_inv_emit:
  assumes inv: "chunker_inv S ov sents (chunks, cur, idx)" and ne: "cur \<noteq> []"
  shows "\<forall>i < length (chunks @ [c\<lparr>chunk_text := strip cur\<rparr>]).
           chunk_shape S ov sents (map chunk_text (chunks @ [c\<lparr>chunk_text := strip cur\<rparr>])) i"
proof -
  from inv have sc: "strip cur = cur"
    and old: "\<forall>i < length (map chunk_text chunks). chunk_shape S ov sents (map chunk_text chunks) i"
    and cur: "int (length cur) \<le> S \<or> cur \<in> set sents
           \<or> (chunks \<noteq> [] \<and> (\<exists>s \<in> set sents.
                 cur = get_overlap_text ov (chunk_text (last chunks)) @ ''. '' @ s))"
    using ne by (auto simp: chunker_inv_def)
  have "int (length cur) \<le> S \<or> cur \<in> set sents
        \<or> (map chunk_text chunks \<noteq> [] \<and> (\<exists>s \<in> set sents.
              cur = get_overlap_text ov (last (map chunk_text chunks)) @ ''. '' @ s))"
    using cur by (auto simp: last_map)
  from chunk_shape_snoc [OF old this] show ?thesis by (simp add: sc)
qed


lemma chunk_step_skip:
  "strip s0 = [] \<Longrightarrow> chunk_step S ov pg (chunks, cur, idx) s0 = (chunks, cur, idx)"
  by (simp add: chunk_step_def)

lemma chunk_step_first:
  "strip s0 \<noteq> [] \<Longrightarrow> chunk_step S ov pg (chunks, [], idx) s0 = (chunks, strip s0, idx)"
  by (simp add: chunk_step_def)

lemma chunk_step_keep:
  "strip s0 \<noteq> [] \<Longrightarrow> cur \<noteq> [] \<Longrightarrow> \<not> int (length (cur @ ''. '' @ strip s0)) > S \<Longrightarrow>
   chunk_step S ov pg (chunks, cur, idx) s0 = (chunks, cur @ ''. '' @ strip s0, idx)"
  by (simp add: chunk_step_def)

lemma chunk_step_emit:
  "strip s0 \<noteq> [] \<Longrightarrow> cur \<noteq> [] \<Longrightarrow> int (length (cur @ ''. '' @ strip s0)) > S \<Longrightarrow>
   chunk_step S ov pg (chunks, cur, idx) s0
   = (chunks @ [\<lparr>chunk_text = strip cur, page = pg, chunk_index = idx\<rparr>],
      (if get_overlap_text ov cur \<noteq> [] then get_overlap_text ov cur @ ''. '' @ strip s0
       else strip s0),
      idx + 1)"
  by (simp add: chunk_step_def Let_def)


lemma chunker_inv_step:
  assumes inv: "chunker_inv S ov sents st"
    and sent: "strip s0 \<noteq> [] \<longrightarrow> strip s0 \<in> set sents"
  shows "chunker_inv S ov sents (chunk_step S ov pg st s0)"
proof -
  obtain chunks cur idx where st: "st = (chunks, cur, idx)" by (cases st) auto
  let ?s = "strip s0"
  from inv st have sc: "strip cur = cur"
    and old: "\<forall>i < length chunks. chunk_shape S ov sents (map chunk_text chunks) i"
    by (simp_all add: chunker_inv_def)
  have ss: "strip ?s = ?s" by (rule strip_strip)
  consider (skip) "?s = []"
    | (first) "?s \<noteq> []" "cur = []"
    | (keep) "?s \<noteq> []" "cur \<noteq> []" "\<not> int (length (cur @ ''. '' @ ?s)) > S"
    | (emit) "?s \<noteq> []" "cur \<noteq> []" "int (length (cur @ ''. '' @ ?s)) > S"
    by blast
  then show ?thesis
  proof cases
    case skip
    then have "chunk_step S ov pg st s0 = st"
      unfolding st by (rule chunk_step_skip)
    then show ?thesis using inv by simp
  next
    case first
    then have step: "chunk_step S ov pg st s0 = (chunks, ?s, idx)"
      unfolding st using chunk_step_first [of s0 S ov pg chunks idx] by simp
    have "?s \<in> set sents" using first(1) sent by simp
    then have "chunker_inv S ov sents (chunks, ?s, idx)"
      unfolding chunker_inv_def using ss old by simp
    then show ?thesis by (simp only: step)
  next
    case keep
    let ?pot = "cur @ ''. '' @ ?s"
    have step: "chunk_step S ov pg st s0 = (chunks, ?pot, idx)"
      unfolding st using keep by (rule chunk_step_keep)
    have clean: "strip ?pot = ?pot"
      using sc keep(2) ss keep(1) by (rule strip_join)
    have "int (length ?pot) \<le> S" using keep(3) by linarith
    then have "chunker_inv S ov sents (chunks, ?pot, idx)"
      unfolding chunker_inv_def using clean old by blast
    then show ?thesis by (simp only: step)
  next
    case emit
    let ?c = "\<lparr>chunk_text = strip cur, page = pg, chunk_index = idx\<rparr>"
    let ?o = "get_overlap_text ov cur"
    let ?cur' = "if ?o \<noteq> [] then ?o @ ''. '' @ ?s else ?s"
    have step: "chunk_step S ov pg st s0 = (chunks @ [?c], ?cur', idx + 1)"
      unfolding st using emit by (rule chunk_step_emit)
    have "\<forall>i < length (chunks @ [?c\<lparr>chunk_text := strip cur\<rparr>]).
            chunk_shape S ov sents (map chunk_text (chunks @ [?c\<lparr>chunk_text := strip cur\<rparr>])) i"
      using inv emit(2) unfolding st by (rule chunker_inv_emit)
    then have shapes: "\<forall>i < length (chunks @ [?c]).
                      chunk_shape S ov sents (map chunk_text (chunks @ [?c])) i"
      by simp
    have so: "strip ?o = ?o" using sc by (rule strip_get_overlap_text)
    have sin: "?s \<in> set sents" using emit(1) sent by simp
    have lastc: "chunk_text (last (chunks @ [?c])) = cur" by (simp add: sc)
    show ?thesis
    proof (cases "?o = []")
      case True
      then have c': "?cur' = ?s" by simp
      have "chunker_inv S ov sents (chunks @ [?c], ?s, idx + 1)"
        unfolding chunker_inv_def using ss shapes sin by blast
      then show ?thesis by (simp only: step c')
    next
      case False
      then have c': "?cur' = ?o @ ''. '' @ ?s" by simp
      have clean: "strip (?o @ ''. '' @ ?s) = ?o @ ''. '' @ ?s"
        using so False ss emit(1) by (rule strip_join)
      have "\<exists>s \<in> set sents. ?o @ ''. '' @ ?s
               = get_overlap_text ov (chunk_text (last (chunks @ [?c]))) @ ''. '' @ s"
        using sin by (simp only: lastc) blast
      moreover have "chunks @ [?c] \<noteq> []" by simp
      ultimately have "chunker_inv S ov sents (chunks @ [?c], ?o @ ''. '' @ ?s, idx + 1)"
        unfolding chunker_inv_def using clean shapes by blast
      then show ?thesis by (simp only: step c')
    qed
  qed
qed


lemma chunker_inv_foldl:
  assumes "chunker_inv S ov sents st"
    and "\<forall>s0 \<in> set xs. strip s0 \<noteq> [] \<longrightarrow> strip s0 \<in> set sents"
  shows "chunker_inv S ov sents (foldl (chunk_step S ov pg) st xs)"
  using assms
proof (induction xs arbitrary: st)
  case Nil
  then show ?case by simp
next
  case (Cons x xs)
  have "chunker_inv S ov sents (chunk_step S ov pg st x)"
    using Cons.prems by (intro chunker_inv_step) simp_all
  then have "chunker_inv S ov sents (foldl (chunk_step S ov pg) (chunk_step S ov pg st x) xs)"
    using Cons.prems(2) by (intro Cons.IH) simp_all
  then show ?case by simp
qed

lemma chunker_inv_init: "chunker_inv S ov sents ([], [], 0)"
  by (simp add: chunker_inv_def strip_def)

lemma create_chunks_cases:
  assumes "foldl (chunk_step S ov pg) ([], [], 0) (split ''. '' [] (strip page_text))
           = (chunks, cur, idx)"
  shows "create_chunks S ov page_text pg
         = (if strip page_text = [] then []
            else if strip cur \<noteq> []
            then chunks @ [\<lparr>chunk_text = strip cur, page = pg, chunk_index = idx\<rparr>]
            else chunks)"
  using assms by (simp add: create_chunks_def Let_def)

lemma create_chunks_shape:
  "\<forall>i < length (create_chunks S ov page_text pg).
     chunk_shape S ov (sentences page_text) (map chunk_text (create_chunks S ov page_text pg)) i"
proof (cases "strip page_text = []")
  case True
  then show ?thesis by (simp add: create_chunks_def)
next
  case False
  let ?xs = "split ''. '' [] (strip page_text)"
  let ?st = "foldl (chunk_step S ov pg) ([], [], 0) ?xs"
  let ?sents = "sentences page_text"
  obtain chunks cur idx where st: "?st = (chunks, cur, idx)" by (cases ?st) auto
  have "\<forall>s0 \<in> set ?xs. strip s0 \<noteq> [] \<longrightarrow> strip s0 \<in> set ?sents"
    by (auto simp: sentences_def)
  with chunker_inv_init have "chunker_inv S ov ?sents ?st"
    by (rule chunker_inv_foldl)
  then have inv: "chunker_inv S ov ?sents (chunks, cur, idx)"
    by (simp only: st)
  show ?thesis
  proof (cases "strip cur = []")
    case True
    then have "create_chunks S ov page_text pg = chunks"
      using False create_chunks_cases [OF st] by simp
    moreover have "\<forall>i < length chunks. chunk_shape S ov ?sents (map chunk_text chunks) i"
      using inv by (simp add: chunker_inv_def)
    ultimately show ?thesis by (simp only:)
  next
    case ne: False
    let ?c = "\<lparr>chunk_text = strip cur, page = pg, chunk_index = idx\<rparr>"
    have cc: "create_chunks S ov page_text pg = chunks @ [?c]"
      using False ne create_chunks_cases [OF st] by simp
    from ne have "cur \<noteq> []" by (auto simp: strip_def)
    with inv have "\<forall>i < length (chunks @ [?c\<lparr>chunk_text := strip cur\<rparr>]).
            chunk_shape S ov ?sents (map chunk_text (chunks @ [?c\<lparr>chunk_text := strip cur\<rparr>])) i"
      by (rule chunker_inv_emit)
    then have "\<forall>i < length (chunks @ [?c]).
            chunk_shape S ov ?sents (map chunk_text (chunks @ [?c])) i"
      by simp
    then show ?thesis by (simp only: cc)
  qed
qed

text \<open>
  C2 (amended). For every chunk size \<open>S\<close>, overlap, page number and page text, every
  chunk that \<open>create_chunks\<close> emits has at most \<open>S\<close> characters, except a chunk that is
  a single sentence, alone or after the overlap text of the chunk emitted before it and
  the delimiter; such a chunk is kept whole whatever its length. The overlap text has at
  most as many characters as the overlap when that is positive.
\<close>

theorem create_chunks_size:
  assumes "i < length (create_chunks S ov page_text pg)"
  shows "let ts = map chunk_text (create_chunks S ov page_text pg)
         in int (length (ts ! i)) \<le> S
            \<or> ts ! i \<in> set (sentences page_text)
            \<or> (0 < i
               \<and> (\<exists>s \<in> set (sentences page_text).
                     ts ! i = get_overlap_text ov (ts ! (i - 1)) @ ''. '' @ s)
               \<and> (0 < ov \<longrightarrow> int (length (get_overlap_text ov (ts ! (i - 1)))) \<le> ov))"
proof -
  let ?ts = "map chunk_text (create_chunks S ov page_text pg)"
  have "chunk_shape S ov (sentences page_text) ?ts i"
    using assms create_chunks_shape by blast
  moreover have "0 < ov \<longrightarrow> int (length (get_overlap_text ov (?ts ! (i - 1)))) \<le> ov"
    using length_get_overlap_text by blast
  ultimately show ?thesis
    unfolding chunk_shape_def Let_def by blast
qed

theorem create_chunks_size_witness:
  "(1::nat) < length (create_chunks 10 5 ''aaaa. bbbbbbbb. c'' 1)
   \<and> map chunk_text (create_chunks 10 5 ''aaaa. bbbbbbbb. c'' 1) ! 1
       = get_overlap_text 5 (map chunk_text (create_chunks 10 5 ''aaaa. bbbbbbbb. c'' 1) ! 0)
           @ ''. '' @ ''bbbbbbbb''
   \<and> int (length (get_overlap_text 5
                    (map chunk_text (create_chunks 10 5 ''aaaa. bbbbbbbb. c'' 1) ! 0))) \<le> 5"
proof -
  let ?ts = "map chunk_text (create_chunks 10 5 ''aaaa. bbbbbbbb. c'' 1)"
  have h: "(1::nat) < length (create_chunks 10 5 ''aaaa. bbbbbbbb. c'' 1)"
    by code_simp
  have v: "?ts = [''aaaa'', ''aaaa. bbbbbbbb'', ''bbbbb. c'']"
    by code_simp
  have sents: "sentences ''aaaa. bbbbbbbb. c'' = [''aaaa'', ''bbbbbbbb'', ''c'']"
    by code_simp
  have o: "get_overlap_text 5 ''aaaa'' = ''aaaa''"
    by code_simp
  have "int (length (?ts ! 1)) \<le> 10
        \<or> ?ts ! 1 \<in> set (sentences ''aaaa. bbbbbbbb. c'')
        \<or> ((0::nat) < 1
           \<and> (\<exists>s \<in> set (sentences ''aaaa. bbbbbbbb. c'').
                 ?ts ! 1 = get_overlap_text 5 (?ts ! (1 - 1)) @ ''. '' @ s)
           \<and> ((0::int) < 5 \<longrightarrow> int (length (get_overlap_text 5 (?ts ! (1 - 1)))) \<le> 5))"
    using create_chunks_size [OF h] by (simp only: Let_def)
  then show ?thesis
    using h by (simp add: v sents o)
qed

theorem create_chunks_size_counterexample:
  "create_chunks 10 5 ''aaaa. bbbbbbbb. c'' 1
     = [\<lparr>chunk_text = ''aaaa'', page = 1, chunk_index = 0\<rparr>,
        \<lparr>chunk_text = ''aaaa. bbbbbbbb'', page = 1, chunk_index = 1\<rparr>,
        \<lparr>chunk_text = ''bbbbb. c'', page = 1, chunk_index = 2\<rparr>]
   \<and> \<not> int (length ''aaaa. bbbbbbbb'') \<le> 10
   \<and> ''aaaa. bbbbbbbb'' \<notin> set (sentences ''aaaa. bbbbbbbb. c'')
   \<and> (5::int) < 10"
  by code_simp

end
